theory Spec2Isabelle
  imports Main
begin

section \<open>MicroPeri: the serial REPL session, the fault check, the scan and the cache\<close>

text \<open>
  A shallow embedding of \<^verbatim>\<open>microperi.py\<close>. Text is \<^typ>\<open>string\<close>: a character stands for
  the Unicode code point of the same number, so the embedding covers text whose code
  points are below 256. Bytes on the serial line are characters as well.
\<close>

subsection \<open>Python's string operations\<close>

type_synonym bytes = "char list"

text \<open>\<^verbatim>\<open>str.isspace\<close>, \<^verbatim>\<open>str.isdecimal\<close>, \<^verbatim>\<open>str.isdigit\<close> and \<^verbatim>\<open>str.isnumeric\<close> on one
  character, for the code points below 256.\<close>

definition py_isspace :: "char \<Rightarrow> bool" where
  "py_isspace c = (c \<in> set [CHR 0x09, CHR 0x0A, CHR 0x0B, CHR 0x0C, CHR 0x0D,
                            CHR 0x1C, CHR 0x1D, CHR 0x1E, CHR 0x1F, CHR 0x20,
                            CHR 0x85, CHR 0xA0])"

definition is_decimal_char :: "char \<Rightarrow> bool" where
  "is_decimal_char c = (c \<in> set ''0123456789'')"

definition is_digit_char :: "char \<Rightarrow> bool" where
  "is_digit_char c = (is_decimal_char c \<or> c \<in> set [CHR 0xB2, CHR 0xB3, CHR 0xB9])"

definition is_numeric_char :: "char \<Rightarrow> bool" where
  "is_numeric_char c = (is_digit_char c \<or> c \<in> set [CHR 0xBC, CHR 0xBD, CHR 0xBE])"

text \<open>On a string, the three tests hold when it is not empty and every character passes.\<close>

definition py_isdigit :: "string \<Rightarrow> bool" where
  "py_isdigit s = (s \<noteq> [] \<and> list_all is_digit_char s)"

definition py_isnumeric :: "string \<Rightarrow> bool" where
  "py_isnumeric s = (s \<noteq> [] \<and> list_all is_numeric_char s)"

definition py_startswith :: "string \<Rightarrow> string \<Rightarrow> bool" where
  "py_startswith s p = (take (length p) s = p)"

definition py_endswith :: "string \<Rightarrow> string \<Rightarrow> bool" where
  "py_endswith s p = (length p \<le> length s \<and> drop (length s - length p) s = p)"

definition py_strip :: "string \<Rightarrow> string" where
  "py_strip s = rev (dropWhile py_isspace (rev (dropWhile py_isspace s)))"

text \<open>\<^verbatim>\<open>s.replace(old, new)\<close>: every occurrence of \<open>old\<close>, left to right, without overlap.
  With an empty \<open>old\<close>, Python puts \<open>new\<close> before every character and at the end.\<close>

function py_replace :: "string \<Rightarrow> string \<Rightarrow> string \<Rightarrow> string" where
  "py_replace s old new =
     (if old = [] then new @ concat (map (\<lambda>c. c # new) s)
      else if s = [] then []
      else if take (length old) s = old
        then new @ py_replace (drop (length old) s) old new
        else hd s # py_replace (tl s) old new)"
  by pat_completeness auto
termination
  by (relation "measure (\<lambda>(s, old, new). length s)") auto

text \<open>\<^verbatim>\<open>s.split(sep)\<close> for a separator that is not empty (Python raises ValueError on an
  empty one; every call in the source passes a literal). \<open>acc\<close> holds the piece being
  read, reversed.\<close>

function split_from :: "string \<Rightarrow> string \<Rightarrow> string \<Rightarrow> string list" where
  "split_from sep acc s =
     (if s = [] then [rev acc]
      else if sep \<noteq> [] \<and> take (length sep) s = sep
        then rev acc # split_from sep [] (drop (length sep) s)
        else split_from sep (hd s # acc) (tl s))"
  by pat_completeness auto
termination
  by (relation "measure (\<lambda>(sep, acc, s). length s)") auto

definition py_split :: "string \<Rightarrow> string \<Rightarrow> string list" where
  "py_split s sep = split_from sep [] s"

text \<open>\<^verbatim>\<open>s.find(sub)\<close>: the least index where \<open>sub\<close> starts, \<open>None\<close> for Python's \<open>-1\<close>.\<close>

fun py_find :: "string \<Rightarrow> string \<Rightarrow> nat option" where
  "py_find [] sub = (if sub = [] then Some 0 else None)"
| "py_find (c # cs) sub =
     (if take (length sub) (c # cs) = sub then Some 0
      else map_option Suc (py_find cs sub))"

fun py_join :: "string \<Rightarrow> string list \<Rightarrow> string" where
  "py_join sep [] = []"
| "py_join sep [x] = x"
| "py_join sep (x # y # ys) = x @ sep @ py_join sep (y # ys)"

declare py_replace.simps [simp del] split_from.simps [simp del]

subsection \<open>Decoding bytes as UTF-8\<close>

text \<open>\<^verbatim>\<open>bytes.decode()\<close>: the code points of a byte string, \<open>None\<close> where Python raises
  UnicodeDecodeError (a stray continuation byte, an overlong form, a surrogate, a
  truncated sequence, a lead byte above 0xF4).\<close>

definition cont :: "nat \<Rightarrow> bool" where
  "cont b = (0x80 \<le> b \<and> b < 0xC0)"

fun utf8_points :: "nat list \<Rightarrow> nat list option" where
  "utf8_points [] = Some []"
| "utf8_points (b # bs) =
     (if b < 0x80 then map_option ((#) b) (utf8_points bs)
      else if 0xC2 \<le> b \<and> b < 0xE0 then
        (case bs of
           c1 # r \<Rightarrow>
             if cont c1
             then map_option ((#) ((b - 0xC0) * 64 + (c1 - 0x80))) (utf8_points r)
             else None
         | _ \<Rightarrow> None)
      else if 0xE0 \<le> b \<and> b < 0xF0 then
        (case bs of
           c1 # c2 # r \<Rightarrow>
             if cont c1 \<and> cont c2 \<and> (b = 0xE0 \<longrightarrow> 0xA0 \<le> c1) \<and> (b = 0xED \<longrightarrow> c1 < 0xA0)
             then map_option ((#) ((b - 0xE0) * 4096 + (c1 - 0x80) * 64 + (c2 - 0x80)))
                    (utf8_points r)
             else None
         | _ \<Rightarrow> None)
      else if 0xF0 \<le> b \<and> b < 0xF5 then
        (case bs of
           c1 # c2 # c3 # r \<Rightarrow>
             if cont c1 \<and> cont c2 \<and> cont c3 \<and> (b = 0xF0 \<longrightarrow> 0x90 \<le> c1)
                \<and> (b = 0xF4 \<longrightarrow> c1 < 0x90)
             then map_option
                    ((#) ((b - 0xF0) * 262144 + (c1 - 0x80) * 4096 + (c2 - 0x80) * 64
                          + (c3 - 0x80)))
                    (utf8_points r)
             else None
         | _ \<Rightarrow> None)
      else None)"

text \<open>The outcome of decoding: the text, Python's UnicodeDecodeError, or a text with a code
  point above 255, which \<^typ>\<open>string\<close> cannot hold and the embedding does not follow.\<close>

datatype decoded = Text string | DecodeError | Beyond

definition bytes_decode :: "bytes \<Rightarrow> decoded" where
  "bytes_decode bs =
     (case utf8_points (map of_char bs) of
        None \<Rightarrow> DecodeError
      | Some ps \<Rightarrow> if list_all (\<lambda>p. p < 256) ps then Text (map char_of ps) else Beyond)"

subsection \<open>The serial connection\<close>

text \<open>What the source raises. \<open>PyException\<close> is \<^verbatim>\<open>Exception(message)\<close>; \<open>OutsideModel\<close> is
  not an error of the program: it marks a run that received text the embedding cannot
  represent.\<close>

datatype error =
    PyException string
  | TypeError
  | IndexError
  | ValueError
  | AttributeError string
  | OSError
  | OutsideModel

text \<open>What \<^verbatim>\<open>readlines\<close> and \<^verbatim>\<open>execute\<close> return: a string, the raw bytes, or \<^verbatim>\<open>None\<close>.\<close>

datatype reply = RNone | RStr string | RBytes bytes

text \<open>The state of \<^verbatim>\<open>_microbit_connection\<close>: \<open>timeout\<close> is \<^verbatim>\<open>conn.timeout\<close> (a number, in
  the caller's unit), \<open>inbuf\<close> the bytes waiting in the serial input buffer, \<open>sent\<close> every
  text handed to \<^verbatim>\<open>conn.write\<close>, \<open>received\<close> what every \<^verbatim>\<open>conn.read_until\<close> returned.\<close>

record conn =
  timeout :: nat
  inbuf :: bytes
  sent :: "string list"
  received :: "bytes list"

text \<open>The device at the other end: from all the texts written so far, the bytes it emits
  in answer to the last one.\<close>

type_synonym device = "string list \<Rightarrow> bytes"

text \<open>\<^verbatim>\<open>Serial.read_until(expected)\<close> reads byte by byte until what it has read ends with
  \<open>expected\<close>, or nothing more arrives before the timeout. The result is what was read
  and what stays in the buffer; \<open>acc\<close> is what was read so far, reversed.\<close>

fun read_until :: "bytes \<Rightarrow> bytes \<Rightarrow> bytes \<Rightarrow> bytes \<times> bytes" where
  "read_until expected acc [] = (rev acc, [])"
| "read_until expected acc (b # bs) =
     (if expected \<noteq> [] \<and> take (length expected) (b # acc) = rev expected
      then (rev (b # acc), bs)
      else read_until expected (b # acc) bs)"

definition flush_input :: "conn \<Rightarrow> conn" where
  "flush_input c = c\<lparr>inbuf := []\<rparr>"

text \<open>\<^verbatim>\<open>write\<close>: the data and a carriage return go out, and the device's answer arrives
  in the input buffer.\<close>

definition conn_write :: "device \<Rightarrow> conn \<Rightarrow> string \<Rightarrow> conn" where
  "conn_write dev c data =
     (let out = sent c @ [data @ [CHR 0x0D]]
      in c\<lparr>sent := out, inbuf := inbuf c @ dev out\<rparr>)"

subsection \<open>The fault check\<close>

definition traceback_marker :: string where
  "traceback_marker = ''Traceback''"

text \<open>The exception \<^verbatim>\<open>handle_potential_invalid_data\<close> raises, from the last line.\<close>

definition fault_name :: "string list \<Rightarrow> string" where
  "fault_name lines = butlast (hd (py_split (last lines) '' ''))"

definition fault_msg :: "string list \<Rightarrow> string" where
  "fault_msg lines = drop (length (fault_name lines) + 2) (last lines)"

definition remote_fault :: "string \<Rightarrow> string \<Rightarrow> error" where
  "remote_fault name msg =
     PyException (''[the micro:bit raised the following exception] '' @ name @ '': '' @ msg)"

text \<open>The loop \<^verbatim>\<open>for x in range(len(lines) - 1)\<close>: the first index in \<open>xs\<close> whose line starts
  with the marker.\<close>

fun first_traceback :: "string list \<Rightarrow> nat list \<Rightarrow> nat option" where
  "first_traceback lines [] = None"
| "first_traceback lines (x # xs) =
     (if py_startswith (lines ! x) traceback_marker then Some x
      else first_traceback lines xs)"

definition handle_potential_invalid_data :: "string \<Rightarrow> error + unit" where
  "handle_potential_invalid_data data =
     (let lines = py_split (py_strip (py_replace data [CHR 0x0D] [])) [CHR 0x0A]
      in if length lines \<le> 0 then Inr ()
         else case first_traceback lines [0 ..< length lines - 1] of
                Some x \<Rightarrow> Inl (remote_fault (fault_name lines) (fault_msg lines))
              | None \<Rightarrow> Inr ())"

subsection \<open>Reading a response and executing a command\<close>

text \<open>The prompt of the REPL, the default of \<^verbatim>\<open>until_sequence\<close>.\<close>

definition prompt :: bytes where
  "prompt = ''>>> ''"

text \<open>The first statements of \<^verbatim>\<open>readlines\<close>: \<^verbatim>\<open>conn.readline()\<close> takes the echoed command
  line, which is dropped, \<^verbatim>\<open>conn.read_until(until_sequence)\<close> takes the data, and the
  input buffer is flushed when \<^verbatim>\<open>flush_after_input\<close> is set.\<close>

definition read_response :: "conn \<Rightarrow> bool \<Rightarrow> bytes \<Rightarrow> conn \<times> bytes" where
  "read_response c flush_after_input until_sequence =
     (let after_echo = snd (read_until [CHR 0x0A] [] (inbuf c));
          data = fst (read_until until_sequence [] after_echo);
          c1 = c\<lparr>inbuf := snd (read_until until_sequence [] after_echo),
                 received := received c @ [data]\<rparr>
      in (if flush_after_input then flush_input c1 else c1, data))"

text \<open>A call whose value is dropped, as in the handler of \<^verbatim>\<open>readlines\<close>: what it raises
  goes on, and the caller falls off its end, which returns \<^verbatim>\<open>None\<close>.\<close>

fun discard :: "conn \<times> (error + reply) \<Rightarrow> conn \<times> (error + reply)" where
  "discard (c, Inl e) = (c, Inl e)"
| "discard (c, Inr v) = (c, Inr RNone)"

lemma read_until_splits: "read_until e acc bs = (d, r) \<Longrightarrow> rev acc @ bs = d @ r"
proof (induction bs arbitrary: acc)
  case Nil
  then show ?case by simp
next
  case (Cons b bs)
  show ?case
  proof (cases "e \<noteq> [] \<and> take (length e) (b # acc) = rev e")
    case True
    with Cons.prems show ?thesis by auto
  next
    case False
    with Cons.prems have "read_until e (b # acc) bs = (d, r)" by auto
    from Cons.IH [OF this] show ?thesis by simp
  qed
qed

lemma read_response_shorter:
  "length (inbuf (fst (read_response c f u))) + length (snd (read_response c f u))
     \<le> length (inbuf c)"
proof -
  obtain e b1 where 1: "read_until [CHR 0x0A] [] (inbuf c) = (e, b1)"
    by (cases "read_until [CHR 0x0A] [] (inbuf c)")
  obtain d b2 where 2: "read_until u [] b1 = (d, b2)"
    by (cases "read_until u [] b1")
  from read_until_splits [OF 1] read_until_splits [OF 2]
  have "inbuf c = e @ d @ b2" by simp
  then show ?thesis
    using 1 2 by (simp add: read_response_def flush_input_def Let_def)
qed

lemma utf8_points_Nil: "bytes_decode [] = Text []"
  by (simp add: bytes_decode_def)

lemma prompt_decodes: "bytes_decode prompt = Text prompt"
  by code_simp

text \<open>The end of the stripping branch of \<^verbatim>\<open>readlines\<close>: the fault check when
  \<^verbatim>\<open>look_for_exceptions\<close> is set, then \<^verbatim>\<open>return dataStr\<close>.\<close>

definition checked_reply :: "conn \<Rightarrow> bool \<Rightarrow> string \<Rightarrow> conn \<times> (error + reply)" where
  "checked_reply c look_for_exceptions dataStr =
     (if look_for_exceptions then
        (case handle_potential_invalid_data dataStr of
           Inl e \<Rightarrow> (c, Inl e)
         | Inr u \<Rightarrow> (c, Inr (RStr dataStr)))
      else (c, Inr (RStr dataStr)))"

text \<open>\<^verbatim>\<open>readlines\<close>. The handler of UnicodeDecodeError calls \<^verbatim>\<open>readlines\<close> again with the
  first three arguments, so with \<^verbatim>\<open>flush_after_input=True\<close> and the default prompt, and
  drops what that call returns. The decoding of \<^verbatim>\<open>until_sequence\<close> stands inside the
  same \<^verbatim>\<open>try\<close>. Received text with a code point above 255 ends the run of the embedding
  when a string would be returned; a prompt with such a code point does not occur in a
  text without one, so nothing is replaced.\<close>

function readlines ::
  "conn \<Rightarrow> bool \<Rightarrow> bool \<Rightarrow> bool \<Rightarrow> bool \<Rightarrow> bytes \<Rightarrow> conn \<times> (error + reply)" where
  "readlines c strip decode look_for_exceptions flush_after_input until_sequence =
     (let c1 = fst (read_response c flush_after_input until_sequence);
          data = snd (read_response c flush_after_input until_sequence)
      in case bytes_decode data of
           DecodeError \<Rightarrow> discard (readlines c1 strip decode look_for_exceptions True prompt)
         | Beyond \<Rightarrow> if decode then (c1, Inl OutsideModel) else (c1, Inr (RBytes data))
         | Text dataStr \<Rightarrow>
             if decode then
               if strip then
                 (case bytes_decode until_sequence of
                    DecodeError \<Rightarrow>
                      discard (readlines c1 strip decode look_for_exceptions True prompt)
                  | Beyond \<Rightarrow> checked_reply c1 look_for_exceptions (py_strip dataStr)
                  | Text until \<Rightarrow>
                      checked_reply c1 look_for_exceptions
                        (py_strip (py_replace dataStr until [])))
               else (c1, Inr (RStr dataStr))
             else (c1, Inr (RBytes data)))"
  by pat_completeness auto
termination
proof (relation "measure (\<lambda>(c, s, d, l, f, u).
          2 * length (inbuf c) + (if bytes_decode u = DecodeError then 1 else 0))",
       goal_cases)
  case 1
  show ?case by simp
next
  case (2 c strip decode look f u c1 data dataStr)
  with read_response_shorter [of c f u] show ?case
    by (simp add: prompt_decodes)
next
  case (3 c strip decode look f u c1 data)
  have "data \<noteq> []" using 3 by (auto simp: utf8_points_Nil)
  then have "0 < length (snd (read_response c f u))" using 3 by simp
  with read_response_shorter [of c f u]
  have "length (inbuf (fst (read_response c f u))) < length (inbuf c)" by arith
  with 3 show ?case
    by (simp add: prompt_decodes)
qed

declare readlines.simps [simp del]

text \<open>\<^verbatim>\<open>execute\<close>. A call that raises leaves the function at once: the statement that
  puts the saved timeout back is reached only when \<^verbatim>\<open>readlines\<close> returns.\<close>

definition execute ::
  "device \<Rightarrow> conn \<Rightarrow> string \<Rightarrow> bool \<Rightarrow> bool \<Rightarrow> bool \<Rightarrow> nat option \<Rightarrow> bool
     \<Rightarrow> conn \<times> (error + reply)" where
  "execute dev c command strip decode look_for_exceptions timeout_arg flush_after_input =
     (let backup_timeout = timeout c;
          c1 = (case timeout_arg of None \<Rightarrow> c | Some t \<Rightarrow> c\<lparr>timeout := t\<rparr>);
          c2 = flush_input c1;
          c3 = conn_write dev c2 command;
          r = readlines c3 strip decode look_for_exceptions flush_after_input prompt
      in case snd r of
           Inl e \<Rightarrow> (fst r, Inl e)
         | Inr data \<Rightarrow> ((fst r)\<lparr>timeout := backup_timeout\<rparr>, Inr data))"

text \<open>\<^verbatim>\<open>execute(command)\<close> with every default.\<close>

abbreviation execute_default :: "device \<Rightarrow> conn \<Rightarrow> string \<Rightarrow> conn \<times> (error + reply)" where
  "execute_default dev c command \<equiv> execute dev c command True True True None True"

text \<open>\<^verbatim>\<open>soft_reset\<close> and \<^verbatim>\<open>post_reset\<close>. The two control characters are sent as the source
  writes them.\<close>

definition post_reset :: "device \<Rightarrow> conn \<Rightarrow> conn \<times> (error + unit)" where
  "post_reset dev c =
     (let r = execute_default dev c []
      in case snd r of
           Inl e \<Rightarrow> (fst r, Inl e)
         | Inr v \<Rightarrow> (flush_input (fst r), Inr ()))"

definition soft_reset :: "device \<Rightarrow> conn \<Rightarrow> bool \<Rightarrow> conn \<times> (error + unit)" where
  "soft_reset dev c do_post_reset =
     (let c1 = conn_write dev c [CHR 0x04];
          c2 = conn_write dev c1 [];
          c3 = flush_input c2;
          c4 = conn_write dev c3 [CHR 0x03]
      in if do_post_reset then post_reset dev c4 else (c4, Inr ()))"

subsection \<open>Values and their \<^verbatim>\<open>repr\<close>\<close>

text \<open>The arguments a forwarded call can carry: \<^verbatim>\<open>None\<close>, booleans, integers, strings and
  lists of these. Floats are left out.\<close>

datatype pyval = PNone | PBool bool | PInt int | PStr string | PList "pyval list"

text \<open>The decimal digits of a natural number, as \<^verbatim>\<open>str\<close> prints them.\<close>

fun digits :: "nat \<Rightarrow> string" where
  "digits n = (if n < 10 then [char_of (48 + n)]
               else digits (n div 10) @ [char_of (48 + n mod 10)])"

declare digits.simps [simp del]

definition int_repr :: "int \<Rightarrow> string" where
  "int_repr i = (if i < 0 then ''-'' @ digits (nat (- i)) else digits (nat i))"

text \<open>\<^verbatim>\<open>repr\<close> of a string. The quote is the single quote unless the string holds a single
  quote and no double quote. A printable character stands for itself; the quote and
  the backslash get a backslash; tab, line feed and carriage return get their letter; any
  other character is written \<^verbatim>\<open>\xNN\<close>.\<close>

definition squote :: char where
  "squote = CHR 0x27"

definition dquote :: char where
  "dquote = CHR 0x22"

definition backslash :: char where
  "backslash = CHR 0x5C"

definition repr_quote :: "string \<Rightarrow> char" where
  "repr_quote s = (if squote \<in> set s \<and> dquote \<notin> set s then dquote else squote)"

definition py_isprintable :: "char \<Rightarrow> bool" where
  "py_isprintable c =
     (let n = (of_char c :: nat)
      in (0x20 \<le> n \<and> n < 0x7F) \<or> (0xA1 \<le> n \<and> n \<noteq> 0xAD))"

definition hex_digit :: "nat \<Rightarrow> char" where
  "hex_digit n = ''0123456789abcdef'' ! n"

definition repr_char :: "char \<Rightarrow> char \<Rightarrow> string" where
  "repr_char q c =
     (if c = q \<or> c = backslash then [backslash, c]
      else if c = CHR 0x09 then [backslash, CHR ''t'']
      else if c = CHR 0x0A then [backslash, CHR ''n'']
      else if c = CHR 0x0D then [backslash, CHR ''r'']
      else if py_isprintable c then [c]
      else [backslash, CHR ''x'', hex_digit (of_char c div 16), hex_digit (of_char c mod 16)])"

definition str_repr :: "string \<Rightarrow> string" where
  "str_repr s = (let q = repr_quote s in [q] @ concat (map (repr_char q) s) @ [q])"

fun py_repr :: "pyval \<Rightarrow> string" where
  "py_repr PNone = ''None''"
| "py_repr (PBool b) = (if b then ''True'' else ''False'')"
| "py_repr (PInt i) = int_repr i"
| "py_repr (PStr s) = str_repr s"
| "py_repr (PList xs) = ''['' @ py_join '', '' (map py_repr xs) @ '']''"

subsection \<open>\<^verbatim>\<open>_determine_variable_type\<close>\<close>

text \<open>\<^verbatim>\<open>int(s)\<close> for a string that passed \<^verbatim>\<open>isdigit\<close> or \<^verbatim>\<open>isnumeric\<close>: the value when
  every character is a decimal digit, ValueError on a superscript or a fraction.\<close>

definition py_int :: "string \<Rightarrow> error + int" where
  "py_int s =
     (if s \<noteq> [] \<and> list_all is_decimal_char s
      then Inr (foldl (\<lambda>n c. 10 * n + (of_char c - 48)) 0 s)
      else Inl ValueError)"

text \<open>What \<^verbatim>\<open>_determine_variable_type\<close> returns. A float is kept as the text it was read
  from; whether \<^verbatim>\<open>float(s)\<close> accepts a text is the parameter \<open>is_float\<close>.\<close>

datatype scalar = SStr string | SInt int | SFloat string

definition determine_variable_type :: "(string \<Rightarrow> bool) \<Rightarrow> string \<Rightarrow> error + scalar" where
  "determine_variable_type is_float s =
     (if py_startswith s [squote] \<and> py_endswith s [squote] then Inr (SStr (butlast (tl s)))
      else if py_isdigit s then
        (case py_int s of Inl e \<Rightarrow> Inl e | Inr n \<Rightarrow> Inr (SInt n))
      else if is_float s then Inr (SFloat s)
      else Inl (PyException ''*** FIXME: do something here ***''))"

subsection \<open>The shims\<close>

text \<open>What a scan builds. A \<^verbatim>\<open>_shim_class\<close> is its \<^verbatim>\<open>__dict__\<close>, in insertion order; a
  \<^verbatim>\<open>_shim_function\<close> is its \<^verbatim>\<open>_path\<close> (its \<^verbatim>\<open>_conn\<close> is the one connection); \<open>BoundCall\<close>
  is the bound method \<^verbatim>\<open>call\<close> of the \<^verbatim>\<open>_shim_function\<close> with that path.\<close>

datatype node =
    ShimClass "(string \<times> node) list"
  | ShimFunction string
  | BoundCall string
  | StrNode string
  | IntNode int

text \<open>\<^verbatim>\<open>d[attr] = val\<close> on a dict kept in insertion order.\<close>

fun set_attr :: "(string \<times> node) list \<Rightarrow> string \<Rightarrow> node \<Rightarrow> (string \<times> node) list" where
  "set_attr [] attr val = [(attr, val)]"
| "set_attr ((k, v) # d) attr val =
     (if k = attr then (k, val) # d else (k, v) # set_attr d attr val)"

text \<open>\<^verbatim>\<open>__getattr__\<close> of \<^verbatim>\<open>_shim_class\<close> and of \<^verbatim>\<open>_microbit_wrapper\<close>.\<close>

definition getattr :: "(string \<times> node) list \<Rightarrow> string \<Rightarrow> error + node" where
  "getattr d attr =
     (case map_of d attr of
        Some v \<Rightarrow> Inr v
      | None \<Rightarrow> Inl (AttributeError (''Shim class has no attribute '' @ [squote] @ attr @ [squote])))"

text \<open>\<^verbatim>\<open>_shim_function.call\<close>: the two loops that assemble the expression. \<open>kwargs\<close> is the
  dict of keyword arguments, in insertion order.\<close>

fun call_args :: "pyval list \<Rightarrow> string \<times> int \<Rightarrow> string \<times> int" where
  "call_args [] (s, arg_count) = (s, arg_count)"
| "call_args (arg # args) (s, arg_count) =
     call_args args
       (if arg_count - 1 > 0 then (s @ py_repr arg @ '','', arg_count - 1)
        else (s @ py_repr arg, arg_count - 1))"

fun call_kwargs :: "(string \<times> pyval) list \<Rightarrow> string \<times> int \<Rightarrow> string \<times> int" where
  "call_kwargs [] (s, arg_count) = (s, arg_count)"
| "call_kwargs ((key, val) # kwargs) (s, arg_count) =
     call_kwargs kwargs
       (if arg_count - 1 > 0 then (s @ key @ ''='' @ py_repr val @ '','', arg_count - 1)
        else (s @ key @ ''='' @ py_repr val, arg_count - 1))"

definition call_expression :: "string \<Rightarrow> pyval list \<Rightarrow> (string \<times> pyval) list \<Rightarrow> string" where
  "call_expression path args kwargs =
     (let s = path @ ''('';
          arg_count = int (length args) + int (length kwargs)
      in fst (call_kwargs kwargs (call_args args (s, arg_count))) @ '')'')"

definition shim_call ::
  "device \<Rightarrow> conn \<Rightarrow> string \<Rightarrow> pyval list \<Rightarrow> (string \<times> pyval) list \<Rightarrow> conn \<times> (error + reply)" where
  "shim_call dev c path args kwargs = execute_default dev c (call_expression path args kwargs)"

subsection \<open>The scan\<close>

text \<open>The tests of \<^verbatim>\<open>_scan_member_of\<close> on the repr of a member, in the order of the
  source: a bracketed marker (a function or a class), a string in double or single
  quotes, a numeric text, anything else.\<close>

datatype member_kind = KFunction | KClass | KString string | KInteger | KUnrecognised

definition member_kind :: "string \<Rightarrow> member_kind" where
  "member_kind info =
     (if py_startswith info ''<'' \<and> py_endswith info ''>'' then
        (let s = butlast (tl info)
         in if s = ''function'' \<or> s = ''bound_method'' then KFunction else KClass)
      else if (py_startswith info [dquote] \<and> py_endswith info [dquote])
              \<or> (py_startswith info [squote] \<and> py_endswith info [squote])
        then KString (butlast (tl info))
      else if py_isnumeric info then KInteger
      else KUnrecognised)"

text \<open>A subscript or a \<^verbatim>\<open>join\<close> on what \<^verbatim>\<open>execute\<close> returned: the string, or the TypeError
  that \<^verbatim>\<open>None\<close> gives.\<close>

fun reply_text :: "reply \<Rightarrow> error + string" where
  "reply_text (RStr s) = Inr s"
| "reply_text RNone = Inl TypeError"
| "reply_text (RBytes b) = Inl TypeError"

text \<open>\<^verbatim>\<open>_scan_member_of\<close> and its loop over the members. The recursion follows the
  device's answers and need not end, so it carries fuel: \<open>None\<close> is a scan that went
  deeper than the fuel. \<open>me\<close> is the \<^verbatim>\<open>__dict__\<close> of the \<^verbatim>\<open>_shim_class\<close> being filled.\<close>

fun scan_member_of ::
  "nat \<Rightarrow> device \<Rightarrow> conn \<Rightarrow> string \<Rightarrow> string option \<Rightarrow> (conn \<times> (error + node)) option"
and scan_members ::
  "nat \<Rightarrow> device \<Rightarrow> conn \<Rightarrow> string \<Rightarrow> (string \<times> node) list \<Rightarrow> string list
     \<Rightarrow> (conn \<times> (error + node)) option"
where
  "scan_member_of 0 dev c module_to_process member_to_process = None"
| "scan_member_of (Suc fuel) dev c module_to_process member_to_process =
     (let my_path = (case member_to_process of
                       None \<Rightarrow> module_to_process
                     | Some m \<Rightarrow> module_to_process @ ''.'' @ m);
          r = execute_default dev c (''dir('' @ my_path @ '')'')
      in case snd r of
           Inl e \<Rightarrow> Some (fst r, Inl e)
         | Inr v \<Rightarrow>
             (case reply_text v of
                Inl e \<Rightarrow> Some (fst r, Inl e)
              | Inr s \<Rightarrow>
                  scan_members fuel dev (fst r) my_path []
                    (py_split (drop 2 (take (length s - 2) s)) ([squote] @ '', '' @ [squote]))))"
| "scan_members fuel dev c my_path me [] = Some (c, Inr (ShimClass me))"
| "scan_members fuel dev c my_path me (m # members) =
     (let member = py_strip m
      in if length member \<le> 0 then scan_members fuel dev c my_path me members
         else
           let r = execute_default dev c (''repr('' @ my_path @ ''.'' @ member @ '')'')
           in case snd r of
                Inl e \<Rightarrow> Some (fst r, Inl e)
              | Inr v \<Rightarrow>
                  (case reply_text v of
                     Inl e \<Rightarrow> Some (fst r, Inl e)
                   | Inr t \<Rightarrow>
                       let info = butlast (tl t);
                           member_str = my_path @ member
                       in case member_kind info of
                            KFunction \<Rightarrow>
                              scan_members fuel dev (fst r) my_path
                                (set_attr
                                   (set_attr me (''_shim_function_'' @ member)
                                      (ShimFunction member_str))
                                   member (BoundCall member_str))
                                members
                          | KClass \<Rightarrow>
                              (case scan_member_of fuel dev (fst r) my_path (Some member) of
                                 None \<Rightarrow> None
                               | Some (c', Inl e) \<Rightarrow> Some (c', Inl e)
                               | Some (c', Inr new_member) \<Rightarrow>
                                   scan_members fuel dev c' my_path
                                     (set_attr me member new_member) members)
                          | KString v \<Rightarrow>
                              scan_members fuel dev (fst r) my_path
                                (set_attr me member (StrNode v)) members
                          | KInteger \<Rightarrow>
                              (case py_int info of
                                 Inl e \<Rightarrow> Some (fst r, Inl e)
                               | Inr n \<Rightarrow>
                                   scan_members fuel dev (fst r) my_path
                                     (set_attr me member (IntNode n)) members)
                          | KUnrecognised \<Rightarrow>
                              scan_members fuel dev (fst r) my_path me members))"

subsection \<open>The wrapper and its cache\<close>

text \<open>The state of \<^verbatim>\<open>_microbit_wrapper\<close> and of the file at \<^verbatim>\<open>_cache_path\<close>: \<open>cache_file\<close>
  is the dict whose pickle the file holds, \<open>None\<close> when the file cannot be opened or
  holds no pickle of a dict; \<open>file_writable\<close> says whether writing the file succeeds.\<close>

record wrapper =
  wconn :: conn
  members :: "(string \<times> node) list"
  cache_file :: "(string \<times> node) list option"
  file_writable :: bool

definition module_list :: "string list" where
  "module_list = [''microbit'']"

text \<open>The loop of \<^verbatim>\<open>_scan_modules\<close> over the modules. A module whose import raises is
  skipped.\<close>

fun scan_module_list ::
  "nat \<Rightarrow> device \<Rightarrow> conn \<Rightarrow> (string \<times> node) list \<Rightarrow> string list
     \<Rightarrow> (conn \<times> (error + (string \<times> node) list)) option" where
  "scan_module_list fuel dev c cache [] = Some (c, Inr cache)"
| "scan_module_list fuel dev c cache (module # modules) =
     (let r = execute_default dev c (''import '' @ module)
      in case snd r of
           Inl e \<Rightarrow>
             if e = OutsideModel then Some (fst r, Inl e)
             else scan_module_list fuel dev (fst r) cache modules
         | Inr v \<Rightarrow>
             (case scan_member_of fuel dev (flush_input (fst r)) module None of
                None \<Rightarrow> None
              | Some (c', Inl e) \<Rightarrow> Some (c', Inl e)
              | Some (c', Inr n) \<Rightarrow>
                  scan_module_list fuel dev c' (set_attr cache module n) modules))"

definition scan_modules ::
  "nat \<Rightarrow> device \<Rightarrow> wrapper \<Rightarrow> string \<Rightarrow> (wrapper \<times> (error + unit)) option" where
  "scan_modules fuel dev w micropython_commit_hash =
     (let r = execute_default dev (wconn w) [CHR 0x04]
      in case snd r of
           Inl e \<Rightarrow> Some (w\<lparr>wconn := fst r\<rparr>, Inl e)
         | Inr v \<Rightarrow>
             (case scan_module_list fuel dev (flush_input (fst r))
                     [(''ver'', StrNode micropython_commit_hash)] module_list of
                None \<Rightarrow> None
              | Some (c', Inl e) \<Rightarrow> Some (w\<lparr>wconn := c'\<rparr>, Inl e)
              | Some (c', Inr cache) \<Rightarrow>
                  if file_writable w
                  then Some (w\<lparr>wconn := c', members := cache, cache_file := Some cache\<rparr>,
                             Inr ())
                  else Some (w\<lparr>wconn := c'\<rparr>, Inl OSError)))"

text \<open>The loop \<^verbatim>\<open>while lines[index].isnumeric(): index += 1\<close>: the index where it
  stops, IndexError when it runs off the end of the text.\<close>

function skip_numeric :: "string \<Rightarrow> nat \<Rightarrow> error + nat" where
  "skip_numeric lines index =
     (if length lines \<le> index then Inl IndexError
      else if is_numeric_char (lines ! index) then skip_numeric lines (index + 1)
      else Inr index)"
  by pat_completeness auto
termination
  by (relation "measure (\<lambda>(lines, index). length lines - index)") auto

declare skip_numeric.simps [simp del]

definition version_error :: error where
  "version_error = PyException ''Error: could not determine MicroPython build version''"

text \<open>The commit hash that \<^verbatim>\<open>_load_ubit_module_cache\<close> reads from the boot text.\<close>

definition micropython_commit_hash :: "string \<Rightarrow> error + string" where
  "micropython_commit_hash lines =
     (case py_find lines ''MicroPython v'' of
        None \<Rightarrow> Inl version_error
      | Some i \<Rightarrow>
          (case skip_numeric lines (i + 13) of
             Inl e \<Rightarrow> Inl e
           | Inr i1 \<Rightarrow>
               (case skip_numeric lines (i1 + 1) of
                  Inl e \<Rightarrow> Inl e
                | Inr i2 \<Rightarrow>
                    (case skip_numeric lines (i2 + 1) of
                       Inl e \<Rightarrow> Inl e
                     | Inr i3 \<Rightarrow>
                         (let index = i3 + 1
                          in case py_find (drop index lines) '' '' of
                               None \<Rightarrow> Inl version_error
                             | Some sindex \<Rightarrow> Inr (take sindex (drop index lines)))))))"

text \<open>\<^verbatim>\<open>pickle.load\<close> on the pickle of a dict. To rebuild a \<^verbatim>\<open>_shim_class\<close>, pickle makes the
  object without \<^verbatim>\<open>__init__\<close> and asks it for \<^verbatim>\<open>__setstate__\<close>; that goes to
  \<^verbatim>\<open>__getattr__\<close>, which tests \<^verbatim>\<open>attr in self.__dict__\<close> while \<^verbatim>\<open>__dict__\<close> is still the \<^verbatim>\<open>None\<close>
  of the class, and raises TypeError. So a dict that holds a \<^verbatim>\<open>_shim_class\<close> does not load.\<close>

fun is_shim_class :: "node \<Rightarrow> bool" where
  "is_shim_class (ShimClass d) = True"
| "is_shim_class n = False"

definition pickle_load :: "(string \<times> node) list \<Rightarrow> error + (string \<times> node) list" where
  "pickle_load pickled =
     (if list_ex (\<lambda>(k, v). is_shim_class v) pickled then Inl TypeError else Inr pickled)"

text \<open>What \<^verbatim>\<open>_load_ubit_module_cache\<close> does once it has the commit hash: the cache file
  is used when it loads and gives a dict whose \<^verbatim>\<open>"ver"\<close> is that hash; anything else
  leads to the scan (whatever is raised inside the \<^verbatim>\<open>try\<close> is caught, also by a \<^verbatim>\<open>"ver"\<close>
  that is no string).\<close>

definition cache_hit :: "wrapper \<Rightarrow> string \<Rightarrow> (string \<times> node) list option" where
  "cache_hit w hash =
     (case cache_file w of
        None \<Rightarrow> None
      | Some pickled \<Rightarrow>
          (case pickle_load pickled of
             Inl e \<Rightarrow> None
           | Inr cache \<Rightarrow>
               (case map_of cache ''ver'' of
                  Some (StrNode cache_ver) \<Rightarrow>
                    if cache_ver = hash then Some cache else None
                | _ \<Rightarrow> None)))"

text \<open>The first statements of \<^verbatim>\<open>_load_ubit_module_cache\<close>: the buffer is flushed, the device
  is reset without the post-reset step, and \<^verbatim>\<open>readlines()\<close> reads the boot text.\<close>

definition read_boot_text :: "device \<Rightarrow> conn \<Rightarrow> conn \<times> (error + reply)" where
  "read_boot_text dev c =
     readlines (fst (soft_reset dev (flush_input c) False)) True True True True prompt"

definition load_ubit_module_cache ::
  "nat \<Rightarrow> device \<Rightarrow> wrapper \<Rightarrow> (wrapper \<times> (error + unit)) option" where
  "load_ubit_module_cache fuel dev w =
     (let r = read_boot_text dev (wconn w)
      in case snd r of
           Inl e \<Rightarrow> Some (w\<lparr>wconn := fst r\<rparr>, Inl e)
         | Inr v \<Rightarrow>
             (case reply_text v of
                Inl e \<Rightarrow> Some (w\<lparr>wconn := fst r\<rparr>, Inl e)
              | Inr lines \<Rightarrow>
                  (case micropython_commit_hash lines of
                     Inl e \<Rightarrow> Some (w\<lparr>wconn := fst r\<rparr>, Inl e)
                   | Inr hash \<Rightarrow>
                       (case cache_hit (w\<lparr>wconn := fst r\<rparr>) hash of
                          Some cache \<Rightarrow> Some (w\<lparr>wconn := fst r, members := cache\<rparr>, Inr ())
                        | None \<Rightarrow> scan_modules fuel dev (w\<lparr>wconn := fst r\<rparr>) hash))))"

text \<open>\<^verbatim>\<open>__getattr__\<close> of the wrapper.\<close>

definition wrapper_getattr :: "wrapper \<Rightarrow> string \<Rightarrow> error + node" where
  "wrapper_getattr w attr = getattr (members w) attr"

section \<open>Properties\<close>

subsection \<open>A session and devices to run the definitions on\<close>

text \<open>The connection as the constructor opens it (\<^verbatim>\<open>timeout=1\<close>), with nothing waiting.\<close>

definition idle :: conn where
  "idle = \<lparr>timeout = 1, inbuf = [], sent = [], received = []\<rparr>"

definition crlf :: bytes where
  "crlf = [CHR 0x0D, CHR 0x0A]"

text \<open>A device that answers every command with the echo of \<^verbatim>\<open>1/0\<close> and the traceback
  MicroPython prints for it.\<close>

definition faulting_device :: device where
  "faulting_device ws =
     ''1/0'' @ crlf @ ''Traceback (most recent call last):'' @ crlf
     @ ''  File '' @ [CHR 0x22] @ ''<stdin>'' @ [CHR 0x22] @ '', line 1, in <module>'' @ crlf
     @ ''ZeroDivisionError: division by zero'' @ crlf @ prompt"

subsection \<open>The timeout around \<^verbatim>\<open>execute\<close>\<close>

lemma discard_fst: "fst (discard r) = fst r"
  by (cases r rule: discard.cases) simp_all

lemma checked_reply_fst: "fst (checked_reply c l t) = c"
  by (simp add: checked_reply_def split: sum.splits)

lemma read_response_timeout: "timeout (fst (read_response c f u)) = timeout c"
  by (simp add: read_response_def flush_input_def Let_def)

lemma readlines_timeout: "timeout (fst (readlines c s d l f u)) = timeout c"
proof (induction c s d l f u rule: readlines.induct)
  case (1 c s d l f u)
  show ?case
    using "1.IH" read_response_timeout [of c f u]
    by (subst readlines.simps)
       (auto simp: Let_def discard_fst checked_reply_fst split: decoded.splits sum.splits)
qed

lemma execute_returns_restores:
  "snd (execute dev c cmd s d l t f) = Inr v \<Longrightarrow> timeout (fst (execute dev c cmd s d l t f)) = timeout c"
  by (auto simp: execute_def Let_def split: sum.splits)

lemma execute_raises_keeps:
  "snd (execute dev c cmd s d l t f) = Inl e \<Longrightarrow>
   timeout (fst (execute dev c cmd s d l t f)) = (case t of None \<Rightarrow> timeout c | Some n \<Rightarrow> n)"
  by (auto simp: execute_def Let_def readlines_timeout conn_write_def flush_input_def
           split: sum.splits option.splits)

text \<open>
  C1. \<^verbatim>\<open>execute\<close> is to put back the timeout that was in effect before the call, also when
  the call raises. On the session opened with timeout 1, \<^verbatim>\<open>execute("1/0", timeout=5)\<close>
  against a device that answers with a traceback raises the remote fault, and the
  timeout of the session is 5 afterwards: the override stays.
\<close>

theorem execute_fault_leaves_override:
  "(case execute faulting_device idle ''1/0'' True True True (Some 5) True of
      (c, r) \<Rightarrow> r = Inl (remote_fault ''ZeroDivisionError'' ''division by zero'')
                \<and> timeout c = 5)
   \<and> timeout idle = 1"
  by code_simp

subsection \<open>The fault check\<close>

definition lf :: string where
  "lf = [CHR 0x0A]"

text \<open>What the loop finds: nothing exactly when no line but the last starts with the
  marker. On the text of the specification's example it raises, with the name and the
  message of the last line.\<close>

lemma first_traceback_None:
  "first_traceback lines xs = None
     \<longleftrightarrow> (\<forall>x\<in>set xs. \<not> py_startswith (lines ! x) traceback_marker)"
  by (induction xs) auto

lemma fault_check_passes_iff:
  "handle_potential_invalid_data data = Inr ()
     \<longleftrightarrow> (let lines = py_split (py_strip (py_replace data [CHR 0x0D] [])) [CHR 0x0A]
          in \<forall>x < length lines - 1. \<not> py_startswith (lines ! x) traceback_marker)"
proof -
  let ?lines = "py_split (py_strip (py_replace data [CHR 0x0D] [])) [CHR 0x0A]"
  show ?thesis
  proof (cases "first_traceback ?lines [0 ..< length ?lines - 1]")
    case None
    with first_traceback_None [of ?lines "[0 ..< length ?lines - 1]"] show ?thesis
      by (auto simp: handle_potential_invalid_data_def Let_def)
  next
    case (Some x)
    with first_traceback_None [of ?lines "[0 ..< length ?lines - 1]"] show ?thesis
      by (auto simp: handle_potential_invalid_data_def Let_def)
  qed
qed

lemma fault_check_example:
  "handle_potential_invalid_data
     (''Traceback (most recent call last):'' @ lf @ ''...'' @ lf @ ''ValueError: bad input'')
     = Inl (remote_fault ''ValueError'' ''bad input'')"
  by code_simp

text \<open>
  C3. The check is to raise exactly when some line of the text begins with the marker.
  The loop stops one line short: a marker on the last line is not seen, so a text that
  is the header line alone, or that ends with it, passes the check.
\<close>

theorem fault_check_skips_last_line:
  "handle_potential_invalid_data ''Traceback (most recent call last):'' = Inr ()
   \<and> handle_potential_invalid_data
        (''>>> x'' @ lf @ ''Traceback (most recent call last):'') = Inr ()"
  by code_simp

subsection \<open>Bytes that do not decode\<close>

text \<open>Line noise: after the echo line, two chunks that end with the prompt and hold a byte
  that is no UTF-8, a line break between them.\<close>

definition noisy :: conn where
  "noisy = idle\<lparr>inbuf := ''x'' @ crlf @ [CHR 0xFF] @ prompt @ crlf @ [CHR 0xFE] @ prompt\<rparr>"

text \<open>Line noise, then the traceback of a failed lookup.\<close>

definition noise_then_fault :: device where
  "noise_then_fault ws =
     ''x'' @ crlf @ [CHR 0xFF] @ prompt @ crlf
     @ ''Traceback (most recent call last):'' @ crlf @ ''KeyError: 1'' @ crlf @ prompt"

lemma discard_snd: "snd (discard r) = (case snd r of Inl e \<Rightarrow> Inl e | Inr v \<Rightarrow> Inr RNone)"
  by (cases r rule: discard.cases) simp_all

lemma readlines_retry:
  assumes "bytes_decode (snd (read_response c f u)) = DecodeError"
  shows "readlines c s d l f u = discard (readlines (fst (read_response c f u)) s d l True prompt)"
  using assms by (subst readlines.simps) (simp add: Let_def)

lemma handle_empty: "handle_potential_invalid_data [] = Inr ()"
  by code_simp

lemma strip_replace_empty: "py_strip (py_replace [] prompt []) = []"
  by code_simp

lemma read_response_empty: "inbuf c = [] \<Longrightarrow> snd (read_response c f u) = []"
  by (simp add: read_response_def Let_def)

lemma readlines_empty_buffer:
  assumes "inbuf c = []"
  shows "\<exists>v. snd (readlines c s d l f prompt) = Inr v"
  using read_response_empty [OF assms, of f prompt]
  by (subst readlines.simps)
     (simp add: Let_def utf8_points_Nil prompt_decodes strip_replace_empty handle_empty
        checked_reply_def)

lemma read_response_flushed: "inbuf (fst (read_response c True u)) = []"
  by (simp add: read_response_def Let_def flush_input_def)

lemma read_response_received:
  "received (fst (read_response c f u)) = received c @ [snd (read_response c f u)]"
  by (simp add: read_response_def Let_def flush_input_def)

text \<open>Every call of \<^verbatim>\<open>readlines\<close> reads at least once.\<close>

lemma readlines_reads: "length (received c) < length (received (fst (readlines c s d l f u)))"
proof (induction c s d l f u rule: readlines.induct)
  case (1 c s d l f u)
  let ?c1 = "fst (read_response c f u)"
  let ?data = "snd (read_response c f u)"
  have base: "length (received c) < length (received ?c1)"
    by (simp add: read_response_received)
  show ?case
  proof (cases "bytes_decode ?data")
    case DecodeError
    from "1.IH"(2) [OF refl refl DecodeError] base show ?thesis
      by (simp add: readlines_retry [OF DecodeError] discard_fst)
  next
    case Beyond
    with base show ?thesis by (subst readlines.simps) (simp add: Let_def)
  next
    case (Text x)
    show ?thesis
    proof (cases "d \<and> s \<and> bytes_decode u = DecodeError")
      case True
      with "1.IH"(1) [OF refl refl Text] base
      have "length (received c) < length (received (fst (readlines ?c1 s d l True prompt)))"
        by simp
      with True Text show ?thesis
        by (subst readlines.simps) (simp add: Let_def discard_fst)
    next
      case False
      with Text base show ?thesis
        by (subst readlines.simps)
           (auto simp: Let_def checked_reply_fst split: decoded.splits sum.splits)
    qed
  qed
qed

text \<open>
  C6, as stated: a read whose bytes do not decode is retried exactly once. On the noisy
  session, read without the flush, the first two reads both fail to decode and a third
  read follows: two retries.
\<close>

theorem two_retries_counterexample:
  "bytes_decode (snd (read_response noisy False prompt)) = DecodeError
   \<and> received (fst (readlines noisy True True True False prompt))
       = [CHR 0xFF # prompt, CHR 0xFE # prompt, []]"
  by code_simp

text \<open>
  C6, amended: when the bytes of a read do not decode, no error is raised for that and
  the read is made again, by the call \<^verbatim>\<open>readlines(strip, decode, look_for_exceptions)\<close> on
  the session as the failed read left it: the session after the call is the session
  after that retry, the call raises an error exactly when that retry raises it, and at
  least two reads were made. The retry is retried in the same way, so one retry is a
  lower bound only.
\<close>

theorem undecodable_read_is_retried:
  assumes "bytes_decode (snd (read_response c f u)) = DecodeError"
  shows "fst (readlines c s d l f u)
           = fst (readlines (fst (read_response c f u)) s d l True prompt)
         \<and> (snd (readlines c s d l f u) = Inl e
              \<longleftrightarrow> snd (readlines (fst (read_response c f u)) s d l True prompt) = Inl e)
         \<and> length (received c) + 2 \<le> length (received (fst (readlines c s d l f u)))"
proof -
  let ?c1 = "fst (read_response c f u)"
  have 1: "fst (readlines c s d l f u) = fst (readlines ?c1 s d l True prompt)"
    by (simp add: readlines_retry [OF assms] discard_fst)
  have 2: "snd (readlines c s d l f u) = Inl e
             \<longleftrightarrow> snd (readlines ?c1 s d l True prompt) = Inl e"
    by (simp add: readlines_retry [OF assms] discard_snd split: sum.splits)
  have "length (received ?c1) = length (received c) + 1"
    by (simp add: read_response_received)
  with readlines_reads [of ?c1 s d l True prompt] 1 2 show ?thesis
    by simp
qed

text \<open>The witness: on the noisy session the retry returns, so the call raises nothing.\<close>

theorem undecodable_read_is_retried_witness:
  "bytes_decode (snd (read_response noisy False prompt)) = DecodeError
   \<and> fst (readlines noisy True True True False prompt)
       = fst (readlines (fst (read_response noisy False prompt)) True True True True prompt)
   \<and> (\<forall>e. snd (readlines noisy True True True False prompt) \<noteq> Inl e)
   \<and> length (received noisy) + 2
       \<le> length (received (fst (readlines noisy True True True False prompt)))"
proof -
  have h: "bytes_decode (snd (read_response noisy False prompt)) = DecodeError"
    by code_simp
  have r: "snd (readlines (fst (read_response noisy False prompt)) True True True True prompt)
             = Inr RNone"
    by code_simp
  note th = undecodable_read_is_retried [OF h, of True True True]
  from th r have "\<forall>e. snd (readlines noisy True True True False prompt) \<noteq> Inl e"
    by simp
  with th h show ?thesis
    by blast
qed

text \<open>
  C10, as stated: when the first bytes do not decode, \<^verbatim>\<open>readlines\<close> returns \<^verbatim>\<open>None\<close>
  whatever the retry does, and so does \<^verbatim>\<open>execute\<close>. When the retry reads a traceback, the
  fault it raises leaves \<^verbatim>\<open>readlines\<close> and \<^verbatim>\<open>execute\<close>: nothing is returned.
\<close>

theorem retry_fault_counterexample:
  "bytes_decode (snd (read_response (conn_write noise_then_fault idle ''x'') False prompt))
     = DecodeError
   \<and> snd (readlines (conn_write noise_then_fault idle ''x'') True True True False prompt)
       = Inl (remote_fault ''KeyError'' ''1'')
   \<and> snd (execute noise_then_fault idle ''x'' True True True None False)
       = Inl (remote_fault ''KeyError'' ''1'')"
  by code_simp

text \<open>
  C10, amended: when the first bytes do not decode, \<^verbatim>\<open>readlines\<close> never returns what the
  retry returns: it returns \<^verbatim>\<open>None\<close> when the retry returns, and raises what the retry
  raises. With \<^verbatim>\<open>flush_after_input\<close> set, as \<^verbatim>\<open>execute\<close> has it by default, the retry finds
  an empty buffer and returns, so the result is \<^verbatim>\<open>None\<close>; and what \<^verbatim>\<open>execute\<close> returns or
  raises is what its \<^verbatim>\<open>readlines\<close> call does.
\<close>

theorem undecodable_read_returns_none:
  assumes "bytes_decode (snd (read_response c f u)) = DecodeError"
  shows "snd (readlines c s d l f u)
           = (case snd (readlines (fst (read_response c f u)) s d l True prompt) of
                Inl e \<Rightarrow> Inl e | Inr v \<Rightarrow> Inr RNone)
         \<and> (f \<longrightarrow> snd (readlines c s d l f u) = Inr RNone)
         \<and> (c = conn_write dev (flush_input (case t of None \<Rightarrow> c0 | Some n \<Rightarrow> c0\<lparr>timeout := n\<rparr>)) cmd
              \<and> u = prompt
              \<longrightarrow> snd (execute dev c0 cmd s d l t f) = snd (readlines c s d l f u))"
proof -
  have 1: "snd (readlines c s d l f u)
           = (case snd (readlines (fst (read_response c f u)) s d l True prompt) of
                Inl e \<Rightarrow> Inl e | Inr v \<Rightarrow> Inr RNone)"
    by (simp add: readlines_retry [OF assms] discard_snd)
  have 2: "snd (readlines c s d l f u) = Inr RNone" if f
  proof -
    from that have "inbuf (fst (read_response c f u)) = []"
      by (simp add: read_response_flushed)
    from readlines_empty_buffer [OF this]
    obtain v where "snd (readlines (fst (read_response c f u)) s d l True prompt) = Inr v"
      by blast
    with 1 show ?thesis by simp
  qed
  have 3: "snd (execute dev c0 cmd s d l t f) = snd (readlines c s d l f u)"
    if "c = conn_write dev (flush_input (case t of None \<Rightarrow> c0 | Some n \<Rightarrow> c0\<lparr>timeout := n\<rparr>)) cmd"
      and "u = prompt"
    using that by (simp add: execute_def Let_def split: sum.splits)
  from 1 2 3 show ?thesis by blast
qed

theorem undecodable_read_returns_none_witness:
  "bytes_decode (snd (read_response (conn_write noise_then_fault idle ''x'') True prompt))
     = DecodeError
   \<and> snd (readlines (conn_write noise_then_fault idle ''x'') True True True True prompt)
       = Inr RNone
   \<and> snd (execute noise_then_fault idle ''x'' True True True None True) = Inr RNone"
proof -
  let ?c = "conn_write noise_then_fault idle ''x''"
  have h: "bytes_decode (snd (read_response ?c True prompt)) = DecodeError"
    by code_simp
  have c: "?c = conn_write noise_then_fault
                  (flush_input (case None of None \<Rightarrow> idle | Some n \<Rightarrow> idle\<lparr>timeout := n\<rparr>)) ''x''"
    by (simp add: flush_input_def idle_def)
  note th = undecodable_read_returns_none
         [OF h, where s = True and d = True and l = True and dev = noise_then_fault
            and t = None and ?c0.0 = idle and cmd = "''x''"]
  from th have a: "snd (readlines ?c True True True True prompt) = Inr RNone"
    by blast
  from th c
  have "snd (execute noise_then_fault idle ''x'' True True True None True)
          = snd (readlines ?c True True True True prompt)"
    by blast
  with h a show ?thesis by simp
qed

subsection \<open>The expression a forwarded call sends\<close>

lemma read_response_sent: "sent (fst (read_response c f u)) = sent c"
  by (simp add: read_response_def flush_input_def Let_def)

lemma readlines_sent: "sent (fst (readlines c s d l f u)) = sent c"
proof (induction c s d l f u rule: readlines.induct)
  case (1 c s d l f u)
  show ?case
    using "1.IH" read_response_sent [of c f u]
    by (subst readlines.simps)
       (auto simp: Let_def discard_fst checked_reply_fst split: decoded.splits sum.splits)
qed

lemma execute_sent:
  "sent (fst (execute dev c cmd s d l t f)) = sent c @ [cmd @ [CHR 0x0D]]"
  by (auto simp: execute_def Let_def readlines_sent conn_write_def flush_input_def
           split: sum.splits option.splits)

lemma py_join_append:
  "ys \<noteq> [] \<Longrightarrow> py_join sep (xs @ ys) = concat (map (\<lambda>x. x @ sep) xs) @ py_join sep ys"
proof (induction xs)
  case Nil
  then show ?case by simp
next
  case (Cons x xs)
  then obtain z zs where "xs @ ys = z # zs" by (cases "xs @ ys") auto
  with Cons show ?case by simp
qed

lemma call_args_more:
  "0 < m \<Longrightarrow> call_args args (s, int (length args) + m)
     = (s @ concat (map (\<lambda>a. py_repr a @ '','') args), m)"
  by (induction args arbitrary: s) auto

lemma call_args_last:
  "args \<noteq> [] \<Longrightarrow> call_args args (s, int (length args))
     = (s @ py_join '','' (map py_repr args), 0)"
proof (induction args arbitrary: s)
  case Nil
  then show ?case by simp
next
  case (Cons a args)
  show ?case
  proof (cases args)
    case Nil
    then show ?thesis by simp
  next
    case (Cons b bs)
    with Cons.IH [of "s @ py_repr a @ '',''"] show ?thesis by simp
  qed
qed

lemma call_kwargs_last:
  "kwargs \<noteq> [] \<Longrightarrow> call_kwargs kwargs (s, int (length kwargs))
     = (s @ py_join '','' (map (\<lambda>(key, val). key @ ''='' @ py_repr val) kwargs), 0)"
proof (induction kwargs arbitrary: s)
  case Nil
  then show ?case by simp
next
  case (Cons a kwargs)
  obtain k v where a: "a = (k, v)" by (cases a)
  show ?case
  proof (cases kwargs)
    case Nil
    with a show ?thesis by simp
  next
    case (Cons b bs)
    with a Cons.IH [of "s @ k @ ''='' @ py_repr v @ '',''"] show ?thesis by simp
  qed
qed


text \<open>
  C5, as stated: a callable bound to \<^verbatim>\<open>microbit.display.scroll\<close>, called with \<^verbatim>\<open>"Hi"\<close> and
  \<^verbatim>\<open>100\<close>, sends the text with \<^verbatim>\<open>Hi\<close> in double quotes. The arguments go through
  \<^verbatim>\<open>repr\<close>, which writes this string in single quotes.
\<close>

theorem call_double_quotes_counterexample:
  "call_expression ''microbit.display.scroll'' [PStr ''Hi'', PInt 100] []
     \<noteq> ''microbit.display.scroll('' @ [dquote] @ ''Hi'' @ [dquote] @ '',100)''"
  by code_simp

lemma call_expression_join_args:
  "call_expression path args kwargs
     = path @ ''('' @ py_join '','' (map py_repr args
                      @ map (\<lambda>(key, val). key @ ''='' @ py_repr val) kwargs) @ '')''"
proof (cases kwargs)
  case Nil
  show ?thesis
  proof (cases args)
    case Nil
    with \<open>kwargs = []\<close> show ?thesis by (simp add: call_expression_def)
  next
    case (Cons a as)
    with \<open>kwargs = []\<close> call_args_last [of args "path @ ''(''"] show ?thesis
      by (simp add: call_expression_def)
  qed
next
  case (Cons k ks)
  then have ne: "kwargs \<noteq> []" by simp
  have "call_args args (path @ ''('', int (length args) + int (length kwargs))
          = (path @ ''('' @ concat (map (\<lambda>a. py_repr a @ '','') args), int (length kwargs))"
    using call_args_more [of "int (length kwargs)" args "path @ ''(''"] ne by simp
  with call_kwargs_last [OF ne] py_join_append [of "map (\<lambda>(key, val). key @ ''='' @ py_repr val) kwargs" "'',''" "map py_repr args"] ne
  show ?thesis
    by (simp add: call_expression_def comp_def)
qed


text \<open>
  C5, amended: the expression a call sends is the bound path, then, in parentheses, the
  \<^verbatim>\<open>repr\<close> of every positional argument followed by \<^verbatim>\<open>name=repr\<close> for every keyword
  argument, joined by commas; it is what \<^verbatim>\<open>execute\<close> writes, with the carriage return.
  The callable bound to \<^verbatim>\<open>microbit.display.scroll\<close>, called with \<^verbatim>\<open>"Hi"\<close> and \<^verbatim>\<open>100\<close>, sends
  \<^verbatim>\<open>microbit.display.scroll('Hi',100)\<close>.
\<close>

theorem call_sends_joined_arguments:
  "call_expression path args kwargs
     = path @ ''('' @ py_join '','' (map py_repr args
                      @ map (\<lambda>(key, val). key @ ''='' @ py_repr val) kwargs) @ '')''
   \<and> sent (fst (shim_call dev c path args kwargs))
       = sent c @ [call_expression path args kwargs @ [CHR 0x0D]]
   \<and> call_expression ''microbit.display.scroll'' [PStr ''Hi'', PInt 100] []
       = ''microbit.display.scroll('' @ [squote] @ ''Hi'' @ [squote] @ '',100)''"
proof -
  have "call_expression ''microbit.display.scroll'' [PStr ''Hi'', PInt 100] []
          = ''microbit.display.scroll('' @ [squote] @ ''Hi'' @ [squote] @ '',100)''"
    by code_simp
  then show ?thesis
    using call_expression_join_args [of path args kwargs]
    by (simp add: shim_call_def execute_sent)
qed

subsection \<open>Quoted strings\<close>

lemma startswith_char: "py_startswith s [q] \<longleftrightarrow> s \<noteq> [] \<and> hd s = q"
  by (cases s) (auto simp: py_startswith_def)

lemma endswith_char: "py_endswith s [q] \<longleftrightarrow> s \<noteq> [] \<and> last s = q"
proof (cases s rule: rev_cases)
  case Nil
  then show ?thesis by (simp add: py_endswith_def)
next
  case (snoc xs x)
  then show ?thesis by (auto simp: py_endswith_def)
qed

text \<open>When \<^verbatim>\<open>repr\<close> gives a string back between the quotes \<open>h\<close>: every character must
  be written as it is, and \<open>h\<close> must be the quote that \<^verbatim>\<open>repr\<close> chooses.\<close>

lemma concat_map_longer:
  assumes "\<And>c. f c \<noteq> []"
  shows "length p \<le> length (concat (map f p))"
proof (induction p)
  case Nil
  then show ?case by simp
next
  case (Cons c p)
  from assms [of c] have "1 \<le> length (f c)" by (cases "f c") auto
  with Cons show ?case by simp
qed

lemma concat_map_self:
  assumes ne: "\<And>c. f c \<noteq> []"
  shows "concat (map f p) = p \<longleftrightarrow> (\<forall>c\<in>set p. f c = [c])"
proof (induction p)
  case Nil
  then show ?case by simp
next
  case (Cons c p)
  show ?case
  proof
    assume eq: "concat (map f (c # p)) = c # p"
    obtain a as where f: "f c = a # as" using ne [of c] by (cases "f c") auto
    with eq have a: "a = c" and rest: "as @ concat (map f p) = p" by auto
    from rest have "length as + length (concat (map f p)) = length p"
      by (metis length_append)
    with concat_map_longer [of f p, OF ne] have "length as = 0" by linarith
    then have "as = []" by simp
    with rest f a Cons show "\<forall>x\<in>set (c # p). f x = [x]" by auto
  next
    assume "\<forall>x\<in>set (c # p). f x = [x]"
    with Cons show "concat (map f (c # p)) = c # p" by auto
  qed
qed

lemma repr_char_nonempty: "repr_char q c \<noteq> []"
  by (simp add: repr_char_def)

lemma repr_char_self:
  "repr_char q c = [c] \<longleftrightarrow> c \<noteq> q \<and> c \<noteq> backslash \<and> py_isprintable c"
  by (auto simp: repr_char_def py_isprintable_def Let_def backslash_def)

lemma str_repr_round_trip:
  assumes "h = squote \<or> h = dquote"
  shows "str_repr p = [h] @ p @ [h]
     \<longleftrightarrow> list_all py_isprintable p \<and> backslash \<notin> set p
          \<and> (if h = squote then squote \<notin> set p else squote \<in> set p \<and> dquote \<notin> set p)"
proof -
  let ?q = "repr_quote p"
  have "str_repr p = [h] @ p @ [h] \<longleftrightarrow> ?q = h \<and> concat (map (repr_char ?q) p) = p"
    by (auto simp: str_repr_def Let_def)
  also have "\<dots> \<longleftrightarrow> ?q = h \<and> (\<forall>c\<in>set p. c \<noteq> ?q \<and> c \<noteq> backslash \<and> py_isprintable c)"
    using concat_map_self [of "repr_char ?q" p, OF repr_char_nonempty]
    by (simp add: repr_char_self)
  also have "\<dots> \<longleftrightarrow> list_all py_isprintable p \<and> backslash \<notin> set p
          \<and> (if h = squote then squote \<notin> set p else squote \<in> set p \<and> dquote \<notin> set p)"
    using assms
    by (auto simp: repr_quote_def list_all_iff squote_def dquote_def split: if_splits)
  finally show ?thesis .
qed

lemma wrapped_split:
  assumes "2 \<le> length s"
  shows "s = [hd s] @ butlast (tl s) @ [last s]"
proof -
  from assms obtain a t where s: "s = a # t" by (cases s) auto
  with assms have "t \<noteq> []" by auto
  then have "t = butlast t @ [last t]" by simp
  with s \<open>t \<noteq> []\<close> show ?thesis by simp
qed

text \<open>
  C4, as stated: a string in matching single or double quotes decodes to its payload and
  encodes back to the same quoted form. The payload of \<^verbatim>\<open>"Hi"\<close> in double quotes is found
  by the scan, but \<^verbatim>\<open>repr\<close> writes it in single quotes; \<^verbatim>\<open>_determine_variable_type\<close> knows
  single quotes only and raises on it.
\<close>

theorem double_quoted_round_trip_counterexample:
  "member_kind ([dquote] @ ''Hi'' @ [dquote]) = KString ''Hi''
   \<and> py_repr (PStr ''Hi'') \<noteq> [dquote] @ ''Hi'' @ [dquote]
   \<and> determine_variable_type (\<lambda>s. False) ([dquote] @ ''Hi'' @ [dquote])
       = Inl (PyException ''*** FIXME: do something here ***'')"
  by code_simp

text \<open>
  C4, amended: for a string \<open>s\<close> in matching single or double quotes, the scan takes it
  for a string (not a number) and keeps \<open>s\<close> without the two quotes; so does
  \<^verbatim>\<open>_determine_variable_type\<close> when the quotes are single; and \<^verbatim>\<open>repr\<close> of that payload is
  \<open>s\<close> again exactly when the payload holds printable characters only, no backslash, and
  either the quotes are single and the payload has no single quote, or the quotes are
  double and the payload has a single quote and no double quote.
\<close>

theorem quoted_repr_decodes_to_payload:
  assumes "2 \<le> length s"
    and "(hd s = squote \<and> last s = squote) \<or> (hd s = dquote \<and> last s = dquote)"
  shows "member_kind s = KString (butlast (tl s))
         \<and> (hd s = squote \<longrightarrow>
              determine_variable_type is_float s = Inr (SStr (butlast (tl s))))
         \<and> (py_repr (PStr (butlast (tl s))) = s
              \<longleftrightarrow> list_all py_isprintable (butlast (tl s)) \<and> backslash \<notin> set (butlast (tl s))
                  \<and> (if hd s = squote then squote \<notin> set (butlast (tl s))
                      else squote \<in> set (butlast (tl s)) \<and> dquote \<notin> set (butlast (tl s))))"
proof -
  let ?p = "butlast (tl s)"
  from assms(1) have ne: "s \<noteq> []" by auto
  from assms(2) have "hd s \<noteq> CHR ''<''" by (auto simp: squote_def dquote_def)
  with ne assms(2) have 1: "member_kind s = KString ?p"
    using startswith_char [of s "CHR ''<''"]
    by (auto simp: member_kind_def startswith_char endswith_char)
  have 2: "determine_variable_type is_float s = Inr (SStr ?p)" if "hd s = squote"
    using that ne assms(2)
    by (auto simp: determine_variable_type_def startswith_char endswith_char squote_def dquote_def)
  from assms(2) have h: "hd s = squote \<or> hd s = dquote" and l: "last s = hd s" by auto
  from wrapped_split [OF assms(1)] l have s: "s = [hd s] @ ?p @ [hd s]" by simp
  have "py_repr (PStr ?p) = s \<longleftrightarrow> str_repr ?p = [hd s] @ ?p @ [hd s]"
    using s by simp
  with str_repr_round_trip [OF h, of ?p]
  have 3: "py_repr (PStr ?p) = s
      \<longleftrightarrow> list_all py_isprintable ?p \<and> backslash \<notin> set ?p
          \<and> (if hd s = squote then squote \<notin> set ?p else squote \<in> set ?p \<and> dquote \<notin> set ?p)"
    by simp
  from 1 2 3 show ?thesis by blast
qed

text \<open>The witness: \<^verbatim>\<open>'Hi'\<close> in single quotes, and \<^verbatim>\<open>"it's"\<close> in double quotes, which \<^verbatim>\<open>repr\<close>
  writes in double quotes too.\<close>

theorem quoted_repr_decodes_to_payload_witness:
  "member_kind ([squote] @ ''Hi'' @ [squote]) = KString ''Hi''
   \<and> determine_variable_type (\<lambda>s. False) ([squote] @ ''Hi'' @ [squote]) = Inr (SStr ''Hi'')
   \<and> py_repr (PStr ''Hi'') = [squote] @ ''Hi'' @ [squote]
   \<and> member_kind ([dquote] @ ''it'' @ [squote] @ ''s'' @ [dquote])
       = KString (''it'' @ [squote] @ ''s'')
   \<and> py_repr (PStr (''it'' @ [squote] @ ''s'')) = [dquote] @ ''it'' @ [squote] @ ''s'' @ [dquote]"
proof -
  let ?a = "[squote] @ ''Hi'' @ [squote]"
  let ?b = "[dquote] @ ''it'' @ [squote] @ ''s'' @ [dquote]"
  have a1: "2 \<le> length ?a" and b1: "2 \<le> length ?b" by simp_all
  have a2: "(hd ?a = squote \<and> last ?a = squote) \<or> (hd ?a = dquote \<and> last ?a = dquote)"
    by simp
  have b2: "(hd ?b = squote \<and> last ?b = squote) \<or> (hd ?b = dquote \<and> last ?b = dquote)"
    by simp
  have pa: "butlast (tl ?a) = ''Hi''" and pb: "butlast (tl ?b) = ''it'' @ [squote] @ ''s''"
    by (simp_all add: butlast_append)
  have ca: "list_all py_isprintable ''Hi'' \<and> backslash \<notin> set ''Hi'' \<and> squote \<notin> set ''Hi''"
    by (simp add: py_isprintable_def squote_def backslash_def)
  have cb: "list_all py_isprintable (''it'' @ [squote] @ ''s'')
            \<and> backslash \<notin> set (''it'' @ [squote] @ ''s'')
            \<and> squote \<in> set (''it'' @ [squote] @ ''s'')
            \<and> dquote \<notin> set (''it'' @ [squote] @ ''s'')
            \<and> hd ?b \<noteq> squote"
    by (simp add: py_isprintable_def squote_def dquote_def backslash_def)
  from quoted_repr_decodes_to_payload [OF a1 a2, of "\<lambda>s. False"] pa ca
  have A: "member_kind ?a = KString ''Hi''
           \<and> determine_variable_type (\<lambda>s. False) ?a = Inr (SStr ''Hi'')
           \<and> py_repr (PStr ''Hi'') = ?a"
    by simp
  from quoted_repr_decodes_to_payload [OF b1 b2, of "\<lambda>s. False"] pb cb
  have B: "member_kind ?b = KString (''it'' @ [squote] @ ''s'')
           \<and> py_repr (PStr (''it'' @ [squote] @ ''s'')) = ?b"
    by simp
  from A B show ?thesis by blast
qed

subsection \<open>The commit hash in the boot text\<close>

text \<open>\<open>sub\<close> stands in \<open>boot\<close> at index \<open>i\<close>.\<close>

definition occurs_at :: "string \<Rightarrow> string \<Rightarrow> nat \<Rightarrow> bool" where
  "occurs_at sub boot i = (take (length sub) (drop i boot) = sub)"

text \<open>The banner as the specification words it: after the marker, three numeric fields,
  each closed by a dot or a dash, then the revision token up to the next space.
  \<open>spec_field\<close> takes one field and its separator off a text; \<open>spec_token\<close> is the token
  of a text that starts with the three fields; \<open>spec_banner\<close> holds of a boot text that
  has the marker somewhere with such a version and token behind it.\<close>

definition spec_field :: "string \<Rightarrow> string option" where
  "spec_field s =
     (let ds = takeWhile is_decimal_char s; r = dropWhile is_decimal_char s
      in if ds \<noteq> [] \<and> r \<noteq> [] \<and> (hd r = CHR ''.'' \<or> hd r = CHR ''-'') then Some (tl r)
         else None)"

definition spec_token :: "string \<Rightarrow> string option" where
  "spec_token s =
     (case spec_field s of
        None \<Rightarrow> None
      | Some r1 \<Rightarrow>
          (case spec_field r1 of
             None \<Rightarrow> None
           | Some r2 \<Rightarrow>
               (case spec_field r2 of
                  None \<Rightarrow> None
                | Some r3 \<Rightarrow>
                    if CHR '' '' \<in> set r3 then Some (takeWhile (\<lambda>c. c \<noteq> CHR '' '') r3)
                    else None)))"

definition spec_banner :: "string \<Rightarrow> bool" where
  "spec_banner boot =
     list_ex (\<lambda>i. occurs_at ''MicroPython v'' boot i \<and> spec_token (drop (i + 13) boot) \<noteq> None)
       [0 ..< length boot]"

text \<open>What a micro:bit prints after a soft reset.\<close>

definition boot_text :: string where
  "boot_text = ''soft reboot'' @ crlf @ ''MicroPython v1.7-9-gbe020eb on 2016-04-18; micro:bit''"

lemma py_find_None: "py_find boot sub = None \<Longrightarrow> \<not> occurs_at sub boot i"
proof (induction boot arbitrary: i)
  case Nil
  then show ?case by (auto simp: occurs_at_def split: if_splits)
next
  case (Cons c cs)
  from Cons.prems have 1: "take (length sub) (c # cs) \<noteq> sub" and 2: "py_find cs sub = None"
    by (auto split: if_splits)
  show ?case
  proof (cases i)
    case 0
    with 1 show ?thesis by (simp add: occurs_at_def)
  next
    case (Suc j)
    with Cons.IH [OF 2, of j] show ?thesis by (simp add: occurs_at_def)
  qed
qed

lemma py_find_first:
  "occurs_at sub boot i \<Longrightarrow> \<forall>j<i. \<not> occurs_at sub boot j \<Longrightarrow> py_find boot sub = Some i"
proof (induction boot arbitrary: i)
  case Nil
  then have "sub = []" by (simp add: occurs_at_def)
  with Nil.prems(2) have "i = 0" by (cases i) (auto simp: occurs_at_def)
  with \<open>sub = []\<close> show ?case by simp
next
  case (Cons c cs)
  show ?case
  proof (cases i)
    case 0
    with Cons.prems(1) show ?thesis by (simp add: occurs_at_def)
  next
    case (Suc k)
    from Cons.prems(2) Suc have "\<not> occurs_at sub (c # cs) 0" by simp
    then have 1: "take (length sub) (c # cs) \<noteq> sub"
      by (simp add: occurs_at_def)
    from Cons.prems(1) Suc have 2: "occurs_at sub cs k" by (simp add: occurs_at_def)
    have 3: "\<forall>j<k. \<not> occurs_at sub cs j"
    proof (intro allI impI)
      fix j assume "j < k"
      with Cons.prems(2) Suc have "\<not> occurs_at sub (c # cs) (Suc j)" by simp
      then show "\<not> occurs_at sub cs j" by (simp add: occurs_at_def)
    qed
    from Cons.IH [OF 2 3] 1 Suc show ?thesis by simp
  qed
qed

lemma py_find_Some: "py_find boot sub = Some i \<Longrightarrow> occurs_at sub boot i"
proof (induction boot arbitrary: i)
  case Nil
  then show ?case by (auto simp: occurs_at_def split: if_splits)
next
  case (Cons c cs)
  show ?case
  proof (cases "take (length sub) (c # cs) = sub")
    case True
    with Cons.prems show ?thesis by (simp add: occurs_at_def)
  next
    case False
    with Cons.prems obtain k where "py_find cs sub = Some k" and "i = Suc k" by auto
    with Cons.IH [of k] show ?thesis by (simp add: occurs_at_def)
  qed
qed

lemma numeric_of_decimal: "is_decimal_char c \<Longrightarrow> is_numeric_char c"
  by (simp add: is_numeric_char_def is_digit_char_def)

lemma skip_numeric_run:
  "drop k lines = ds @ c # rest \<Longrightarrow> list_all is_numeric_char ds \<Longrightarrow> \<not> is_numeric_char c
     \<Longrightarrow> skip_numeric lines k = Inr (k + length ds)"
proof (induction ds arbitrary: k)
  case Nil
  then have "k < length lines" by (cases "k < length lines") auto
  moreover from Nil have "lines ! k = c"
    by (metis append_Nil calculation hd_drop_conv_nth list.sel(1))
  ultimately show ?case using Nil by (subst skip_numeric.simps) simp
next
  case (Cons d ds)
  then have lt: "k < length lines" by (cases "k < length lines") auto
  with Cons.prems(1) have d: "lines ! k = d"
    by (metis append_Cons hd_drop_conv_nth list.sel(1))
  from Cons.prems(1) have "drop (Suc k) lines = ds @ c # rest"
    by (metis append_Cons drop_Suc list.sel(3) tl_drop)
  from Cons.IH [OF this] Cons.prems have "skip_numeric lines (Suc k) = Inr (Suc k + length ds)"
    by simp
  with lt d Cons.prems(2) show ?case by (subst skip_numeric.simps) simp
qed

lemma spec_field_skip:
  assumes "spec_field (drop k lines) = Some r"
  shows "\<exists>n. skip_numeric lines k = Inr n \<and> drop (n + 1) lines = r"
proof -
  let ?s = "drop k lines"
  let ?ds = "takeWhile is_decimal_char ?s"
  let ?r = "dropWhile is_decimal_char ?s"
  from assms have ne: "?r \<noteq> []" and sep: "hd ?r = CHR ''.'' \<or> hd ?r = CHR ''-''"
    and r: "r = tl ?r"
    by (auto simp: spec_field_def Let_def split: if_splits)
  from ne have split: "?s = ?ds @ hd ?r # tl ?r" by simp
  have num: "list_all is_numeric_char ?ds"
    by (auto simp: list_all_iff numeric_of_decimal dest: set_takeWhileD)
  from sep have nonnum: "\<not> is_numeric_char (hd ?r)"
    by (auto simp: is_numeric_char_def is_digit_char_def is_decimal_char_def)
  from skip_numeric_run [OF split num nonnum]
  have 1: "skip_numeric lines k = Inr (k + length ?ds)" .
  have "drop (k + length ?ds + 1) lines = drop (length ?ds + 1) ?s"
    by (simp add: add.commute)
  also have "\<dots> = tl ?r" by (subst split) simp
  finally show ?thesis using 1 r by auto
qed

lemma py_find_char:
  "c \<in> set s \<Longrightarrow> py_find s [c] = Some (length (takeWhile (\<lambda>x. x \<noteq> c) s))"
  by (induction s) auto

lemma py_find_least: "py_find boot sub = Some i \<Longrightarrow> j < i \<Longrightarrow> \<not> occurs_at sub boot j"
proof (induction boot arbitrary: i j)
  case Nil
  then show ?case by (auto split: if_splits)
next
  case (Cons c cs)
  from Cons.prems have 1: "take (length sub) (c # cs) \<noteq> sub"
    by (auto split: if_splits)
  with Cons.prems obtain k where k: "py_find cs sub = Some k" "i = Suc k" by auto
  show ?case
  proof (cases j)
    case 0
    with 1 show ?thesis by (simp add: occurs_at_def)
  next
    case (Suc m)
    with Cons.prems(2) k have "m < k" by simp
    from Cons.IH [OF k(1) this] Suc show ?thesis by (simp add: occurs_at_def)
  qed
qed

text \<open>
  C8, as stated: a boot text without a well-formed banner makes the extraction fail with
  the version error. The three fields are skipped, not checked: behind the marker,
  \<^verbatim>\<open>abcdef ghi\<close> loses one character for each separator and \<^verbatim>\<open>def\<close> is returned.
\<close>

theorem unchecked_version_counterexample:
  "\<not> spec_banner ''MicroPython vabcdef ghi''
   \<and> micropython_commit_hash ''MicroPython vabcdef ghi'' = Inr ''def''"
  by code_simp

text \<open>
  C8, amended: a boot text in which the marker \<^verbatim>\<open>MicroPython v\<close> stands nowhere makes the
  extraction fail with the version error; when the first marker is followed by three
  numeric fields, each closed by a dot or a dash, and a token that a space ends, the
  commit hash is exactly that token.
\<close>

theorem commit_hash_of_banner:
  "((\<forall>i. \<not> occurs_at ''MicroPython v'' boot i) \<longrightarrow>
       micropython_commit_hash boot = Inl version_error)
   \<and> (occurs_at ''MicroPython v'' boot i \<and> (\<forall>j<i. \<not> occurs_at ''MicroPython v'' boot j)
        \<and> spec_token (drop (i + 13) boot) = Some token \<longrightarrow>
       micropython_commit_hash boot = Inr token)"
proof (intro conjI impI)
  assume "\<forall>i. \<not> occurs_at ''MicroPython v'' boot i"
  then have "py_find boot ''MicroPython v'' = None"
    using py_find_Some [of boot "''MicroPython v''"]
    by (cases "py_find boot ''MicroPython v''") auto
  then show "micropython_commit_hash boot = Inl version_error"
    by (simp add: micropython_commit_hash_def)
next
  assume a: "occurs_at ''MicroPython v'' boot i \<and> (\<forall>j<i. \<not> occurs_at ''MicroPython v'' boot j)
        \<and> spec_token (drop (i + 13) boot) = Some token"
  then have f: "py_find boot ''MicroPython v'' = Some i"
    using py_find_first by blast
  from a obtain r1 r2 r3 where 1: "spec_field (drop (i + 13) boot) = Some r1"
    and 2: "spec_field r1 = Some r2" and 3: "spec_field r2 = Some r3"
    and sp: "CHR '' '' \<in> set r3" and tok: "token = takeWhile (\<lambda>c. c \<noteq> CHR '' '') r3"
    by (auto simp: spec_token_def split: option.splits if_splits)
  from spec_field_skip [OF 1] obtain i1 where s1: "skip_numeric boot (i + 13) = Inr i1"
    and d1: "drop (i1 + 1) boot = r1" by blast
  from 2 d1 have "spec_field (drop (i1 + 1) boot) = Some r2" by simp
  from spec_field_skip [OF this] obtain i2 where s2: "skip_numeric boot (i1 + 1) = Inr i2"
    and d2: "drop (i2 + 1) boot = r2" by blast
  from 3 d2 have "spec_field (drop (i2 + 1) boot) = Some r3" by simp
  from spec_field_skip [OF this] obtain i3 where s3: "skip_numeric boot (i2 + 1) = Inr i3"
    and d3: "drop (i3 + 1) boot = r3" by blast
  have "take (length (takeWhile (\<lambda>c. c \<noteq> CHR '' '') r3)) r3 = token"
    using tok takeWhile_eq_take [of "\<lambda>c. c \<noteq> CHR '' ''" r3] by simp
  with py_find_char [OF sp] f s1 s2 s3 d3
  show "micropython_commit_hash boot = Inr token"
    by (simp add: micropython_commit_hash_def Let_def)
qed


theorem commit_hash_of_banner_witness:
  "py_find boot_text ''MicroPython v'' = Some 13
   \<and> spec_token (drop (13 + 13) boot_text) = Some ''gbe020eb''
   \<and> micropython_commit_hash boot_text = Inr ''gbe020eb''
   \<and> py_find ''soft reboot'' ''MicroPython v'' = None
   \<and> micropython_commit_hash ''soft reboot'' = Inl version_error"
proof -
  have f: "py_find boot_text ''MicroPython v'' = Some 13" by code_simp
  have t: "spec_token (drop (13 + 13) boot_text) = Some ''gbe020eb''" by code_simp
  have n: "py_find ''soft reboot'' ''MicroPython v'' = None" by code_simp
  from py_find_Some [OF f] py_find_least [OF f] t
       commit_hash_of_banner [of boot_text 13 "''gbe020eb''"]
  have 1: "micropython_commit_hash boot_text = Inr ''gbe020eb''" by blast
  from py_find_None [OF n] commit_hash_of_banner [of "''soft reboot''"]
  have 2: "micropython_commit_hash ''soft reboot'' = Inl version_error" by blast
  from f t n 1 2 show ?thesis by blast
qed


subsection \<open>The scan and the cache\<close>

text \<open>A small micro:bit: the module \<^verbatim>\<open>microbit\<close> has the button \<^verbatim>\<open>button_a\<close>, an object with the
  method \<^verbatim>\<open>is_pressed\<close>, and the function \<^verbatim>\<open>panic\<close>. \<open>repl_output\<close> is what its REPL prints
  for a command; the device echoes the command, prints that and the prompt, and prints
  the boot text when it is reset.\<close>

definition repl_output :: "string \<Rightarrow> string" where
  "repl_output cmd =
     (if cmd = ''dir(microbit)''
        then ''['' @ [squote] @ ''button_a'' @ [squote] @ '', '' @ [squote] @ ''panic''
             @ [squote] @ '']'' @ crlf
      else if cmd = ''repr(microbit.button_a)''
        then [squote] @ ''<MicroBitButton>'' @ [squote] @ crlf
      else if cmd = ''dir(microbit.button_a)''
        then ''['' @ [squote] @ ''is_pressed'' @ [squote] @ '']'' @ crlf
      else if cmd = ''repr(microbit.button_a.is_pressed)''
        then [squote] @ ''<bound_method>'' @ [squote] @ crlf
      else if cmd = ''repr(microbit.panic)'' then [squote] @ ''<function>'' @ [squote] @ crlf
      else [])"

definition microbit_device :: device where
  "microbit_device ws =
     (let cmd = butlast (last ws)
      in if cmd = [CHR 0x03] then crlf @ boot_text @ crlf @ prompt
         else cmd @ crlf @ repl_output cmd @ prompt)"

text \<open>The wrapper before \<^verbatim>\<open>_load_ubit_module_cache\<close>, with no cache file.\<close>

definition fresh :: wrapper where
  "fresh = \<lparr>wconn = idle, members = [], cache_file = None, file_writable = True\<rparr>"

text \<open>What the scan of the module builds on that device.\<close>

definition scanned_microbit :: node where
  "scanned_microbit =
     ShimClass
       [(''button_a'',
         ShimClass [(''_shim_function_is_pressed'', ShimFunction ''microbit.button_ais_pressed''),
                    (''is_pressed'', BoundCall ''microbit.button_ais_pressed'')]),
        (''_shim_function_panic'', ShimFunction ''microbitpanic''),
        (''panic'', BoundCall ''microbitpanic'')]"

text \<open>The record that the scan of that device writes to the cache file.\<close>

definition written :: "(string \<times> node) list" where
  "written = [(''ver'', StrNode ''gbe020eb''), (''microbit'', scanned_microbit)]"

lemma map_of_set_attr:
  "map_of (set_attr d k v) k' = (if k' = k then Some v else map_of d k')"
  by (induction d k v rule: set_attr.induct) auto

lemma scan_module_list_keeps:
  "scan_module_list fuel dev c cache mods = Some (c', Inr cache') \<Longrightarrow> k \<notin> set mods
     \<Longrightarrow> map_of cache' k = map_of cache k"
proof (induction mods arbitrary: c cache)
  case Nil
  then show ?case by simp
next
  case (Cons m mods)
  let ?r = "execute_default dev c (''import '' @ m)"
  show ?case
  proof (cases "snd ?r")
    case (Inl e)
    with Cons.prems(1) have "scan_module_list fuel dev (fst ?r) cache mods = Some (c', Inr cache')"
      by (auto simp: Let_def split: if_splits)
    from Cons.IH [OF this] Cons.prems(2) show ?thesis by simp
  next
    case (Inr v)
    with Cons.prems(1) obtain c2 n where
      "scan_module_list fuel dev c2 (set_attr cache m n) mods = Some (c', Inr cache')"
      by (auto simp: Let_def split: option.splits sum.splits prod.splits)
    from Cons.IH [OF this] Cons.prems(2) show ?thesis by (simp add: map_of_set_attr)
  qed
qed

text \<open>
  C2. A member whose repr is \<^verbatim>\<open><function>\<close> or \<^verbatim>\<open><bound_method>\<close> is to get a callable
  bound to the path of the namespace, a dot, and the member. The scan of the small
  micro:bit binds \<^verbatim>\<open>panic\<close> to \<^verbatim>\<open>microbitpanic\<close> and \<^verbatim>\<open>is_pressed\<close> to
  \<^verbatim>\<open>microbit.button_ais_pressed\<close>: the path and the member with no dot between them,
  while the commands of the scan itself and the path of the nested scan have the dot.
  Calling the first sends \<^verbatim>\<open>microbitpanic()\<close>.
\<close>

theorem function_path_lacks_dot:
  "map_option snd (scan_member_of 2 microbit_device idle ''microbit'' None)
     = Some (Inr scanned_microbit)
   \<and> last (sent (fst (shim_call microbit_device idle ''microbitpanic'' [] [])))
       = ''microbitpanic()'' @ [CHR 0x0D]"
  by code_simp

text \<open>
  C9. After a fresh scan the members of the wrapper bind \<^verbatim>\<open>"ver"\<close> to the commit hash, a
  string and no shim, and \<^verbatim>\<open>__getattr__\<close> of the wrapper returns it for \<^verbatim>\<open>ver\<close>.
\<close>

theorem fresh_scan_binds_ver:
  assumes "scan_modules fuel dev w hash = Some (w', Inr ())"
  shows "map_of (members w') ''ver'' = Some (StrNode hash)
         \<and> wrapper_getattr w' ''ver'' = Inr (StrNode hash)"
proof -
  from assms obtain r c' cache where
    l: "scan_module_list fuel dev (flush_input (fst r)) [(''ver'', StrNode hash)] module_list
          = Some (c', Inr cache)"
    and m: "members w' = cache"
    by (auto simp: scan_modules_def Let_def split: sum.splits option.splits prod.splits if_splits)
  from scan_module_list_keeps [OF l, of "''ver''"] m
  have "map_of (members w') ''ver'' = Some (StrNode hash)"
    by (simp add: module_list_def)
  then show ?thesis by (simp add: wrapper_getattr_def getattr_def)
qed

theorem fresh_scan_binds_ver_witness:
  "map_option snd (scan_modules 2 microbit_device fresh ''abc123'') = Some (Inr ())
   \<and> wrapper_getattr (fst (the (scan_modules 2 microbit_device fresh ''abc123''))) ''ver''
       = Inr (StrNode ''abc123'')"
proof -
  let ?x = "scan_modules 2 microbit_device fresh ''abc123''"
  have s: "map_option snd ?x = Some (Inr ())" by code_simp
  then obtain w' where x: "?x = Some (w', Inr ())" by (cases ?x) auto
  from fresh_scan_binds_ver [OF x] x s show ?thesis by simp
qed

text \<open>What the load does with the cache file, once the boot text is read and gives the
  commit hash: a file that loads and whose \<^verbatim>\<open>"ver"\<close> is that hash becomes the members as
  it is, with the connection as the read of the boot text left it; a file that holds a
  \<^verbatim>\<open>_shim_class\<close> does not load, and the load is the scan.\<close>

lemma load_after_boot_text:
  assumes "snd (read_boot_text dev (wconn w)) = Inr (RStr lines)"
    and "micropython_commit_hash lines = Inr hash"
  shows "load_ubit_module_cache fuel dev w
      = (case cache_hit (w\<lparr>wconn := fst (read_boot_text dev (wconn w))\<rparr>) hash of
           Some cache \<Rightarrow>
             Some (w\<lparr>wconn := fst (read_boot_text dev (wconn w)), members := cache\<rparr>, Inr ())
         | None \<Rightarrow> scan_modules fuel dev (w\<lparr>wconn := fst (read_boot_text dev (wconn w))\<rparr>) hash)"
  using assms by (simp add: load_ubit_module_cache_def Let_def)

lemma load_loadable_hit:
  assumes "snd (read_boot_text dev (wconn w)) = Inr (RStr lines)"
    and "micropython_commit_hash lines = Inr hash"
    and "cache_file w = Some cache"
    and "pickle_load cache = Inr cache"
    and "map_of cache ''ver'' = Some (StrNode hash)"
  shows "load_ubit_module_cache fuel dev w
      = Some (w\<lparr>wconn := fst (read_boot_text dev (wconn w)), members := cache\<rparr>, Inr ())"
  using assms(3-5) by (simp add: load_after_boot_text [OF assms(1,2)] cache_hit_def)

lemma load_shim_class_rescans:
  assumes "snd (read_boot_text dev (wconn w)) = Inr (RStr lines)"
    and "micropython_commit_hash lines = Inr hash"
    and "cache_file w = Some cache"
    and "list_ex (\<lambda>(k, v). is_shim_class v) cache"
  shows "load_ubit_module_cache fuel dev w
      = scan_modules fuel dev (w\<lparr>wconn := fst (read_boot_text dev (wconn w))\<rparr>) hash"
  using assms(3,4)
  by (simp add: load_after_boot_text [OF assms(1,2)] cache_hit_def pickle_load_def)

text \<open>
  C7. A cache record whose identity is the one read from the live session is to be
  returned as it is, with no scan. The load on the small micro:bit with no cache file
  scans and writes the record for the hash \<^verbatim>\<open>gbe020eb\<close>. That record holds the
  \<^verbatim>\<open>_shim_class\<close> of the module, so \<^verbatim>\<open>pickle.load\<close> raises on it; the handler swallows
  that, and the next load on the same device, with the same hash, sends every command
  of the scan again.
\<close>

theorem cache_of_same_identity_is_rescanned:
  "map_option (\<lambda>(w, r). (cache_file w, r)) (load_ubit_module_cache 2 microbit_device fresh)
     = Some (Some written, Inr ())
   \<and> micropython_commit_hash boot_text = Inr ''gbe020eb''
   \<and> map_of written ''ver'' = Some (StrNode ''gbe020eb'')
   \<and> pickle_load written = Inl TypeError
   \<and> map_option (\<lambda>(w, r). (drop 3 (sent (wconn w)), members w, r))
         (load_ubit_module_cache 2 microbit_device (fresh\<lparr>cache_file := Some written\<rparr>))
       = Some ([[CHR 0x04, CHR 0x0D],
                ''import microbit'' @ [CHR 0x0D],
                ''dir(microbit)'' @ [CHR 0x0D],
                ''repr(microbit.button_a)'' @ [CHR 0x0D],
                ''dir(microbit.button_a)'' @ [CHR 0x0D],
                ''repr(microbit.button_a.is_pressed)'' @ [CHR 0x0D],
                ''repr(microbit.panic)'' @ [CHR 0x0D]],
               written, Inr ())"
  by code_simp

end
